theory Spec2Isabelle
  imports Main "HOL-Library.Sublist" "HOL-Library.Multiset"
begin

section \<open>Go strings\<close>

text \<open>
  A Go string is a sequence of bytes, so it is modelled as a \<open>char list\<close> (an Isabelle
  \<open>char\<close> is one byte).  The functions of package \<open>strings\<close> that the parser calls are
  written out below with the behaviour of the Go standard library.
\<close>

text \<open>
  \<open>unicode.IsSpace\<close> holds for the six ASCII white-space bytes, for U+0085 and U+00A0,
  and for U+1680, U+2000 to U+200A, U+2028, U+2029, U+202F, U+205F and U+3000.
  \<open>spaceSeqs\<close> lists their UTF-8 encodings.
\<close>

definition spaceSeqs :: "string list" where
  "spaceSeqs =
    [ [CHR 0x09], [CHR 0x0A], [CHR 0x0B], [CHR 0x0C], [CHR 0x0D], [CHR 0x20],
     [CHR 0xC2, CHR 0x85], [CHR 0xC2, CHR 0xA0],
     [CHR 0xE1, CHR 0x9A, CHR 0x80],
     [CHR 0xE2, CHR 0x80, CHR 0x80], [CHR 0xE2, CHR 0x80, CHR 0x81],
     [CHR 0xE2, CHR 0x80, CHR 0x82], [CHR 0xE2, CHR 0x80, CHR 0x83],
     [CHR 0xE2, CHR 0x80, CHR 0x84], [CHR 0xE2, CHR 0x80, CHR 0x85],
     [CHR 0xE2, CHR 0x80, CHR 0x86], [CHR 0xE2, CHR 0x80, CHR 0x87],
     [CHR 0xE2, CHR 0x80, CHR 0x88], [CHR 0xE2, CHR 0x80, CHR 0x89],
     [CHR 0xE2, CHR 0x80, CHR 0x8A],
     [CHR 0xE2, CHR 0x80, CHR 0xA8], [CHR 0xE2, CHR 0x80, CHR 0xA9],
     [CHR 0xE2, CHR 0x80, CHR 0xAF],
     [CHR 0xE2, CHR 0x81, CHR 0x9F],
     [CHR 0xE3, CHR 0x80, CHR 0x80] ]"

lemma spaceSeqs_nonempty: "p \<in> set spaceSeqs \<Longrightarrow> p \<noteq> []"
  by (auto simp: spaceSeqs_def)

lemma find_spaceSeqs_prefix:
  "find (\<lambda>p. prefix p s) spaceSeqs = Some p \<Longrightarrow> p \<noteq> [] \<and> prefix p s"
  by (auto simp: find_Some_iff spaceSeqs_nonempty)

lemma find_spaceSeqs_suffix:
  "find (\<lambda>p. suffix p s) spaceSeqs = Some p \<Longrightarrow> p \<noteq> [] \<and> suffix p s"
  by (auto simp: find_Some_iff spaceSeqs_nonempty)

text \<open>\<open>strings.TrimLeftFunc(s, unicode.IsSpace)\<close>: drop white-space runes from the front.\<close>

function trimLeft :: "string \<Rightarrow> string" where
  "trimLeft s =
     (case find (\<lambda>p. prefix p s) spaceSeqs of
        None \<Rightarrow> s
      | Some p \<Rightarrow> trimLeft (drop (length p) s))"
  by pat_completeness auto
termination
proof (relation "measure length")
  show "wf (measure length)" by simp
next
  fix s p assume "find (\<lambda>p. prefix p s) spaceSeqs = Some p"
  then have "p \<noteq> []" "prefix p s" using find_spaceSeqs_prefix by blast+
  then have "s \<noteq> []" by auto
  with \<open>p \<noteq> []\<close> show "(drop (length p) s, s) \<in> measure length" by simp
qed

text \<open>\<open>strings.TrimRightFunc(s, unicode.IsSpace)\<close>: drop white-space runes from the end.\<close>

function trimRight :: "string \<Rightarrow> string" where
  "trimRight s =
     (case find (\<lambda>p. suffix p s) spaceSeqs of
        None \<Rightarrow> s
      | Some p \<Rightarrow> trimRight (take (length s - length p) s))"
  by pat_completeness auto
termination
proof (relation "measure length")
  show "wf (measure length)" by simp
next
  fix s p assume "find (\<lambda>p. suffix p s) spaceSeqs = Some p"
  then have "p \<noteq> []" "suffix p s" using find_spaceSeqs_suffix by blast+
  then have "s \<noteq> []" by auto
  with \<open>p \<noteq> []\<close> show "(take (length s - length p) s, s) \<in> measure length" by simp
qed

declare trimLeft.simps [simp del] trimRight.simps [simp del]

definition TrimSpace :: "string \<Rightarrow> string" where
  "TrimSpace s = trimRight (trimLeft s)"

definition HasPrefix :: "string \<Rightarrow> string \<Rightarrow> bool" where
  "HasPrefix s p = prefix p s"

definition HasSuffix :: "string \<Rightarrow> string \<Rightarrow> bool" where
  "HasSuffix s p = suffix p s"

definition TrimPrefix :: "string \<Rightarrow> string \<Rightarrow> string" where
  "TrimPrefix s p = (if HasPrefix s p then drop (length p) s else s)"

definition TrimSuffix :: "string \<Rightarrow> string \<Rightarrow> string" where
  "TrimSuffix s p = (if HasSuffix s p then take (length s - length p) s else s)"

text \<open>\<open>strings.LastIndex\<close>: the byte index of the last occurrence, \<open>-1\<close> when there is none.\<close>

definition LastIndex :: "string \<Rightarrow> string \<Rightarrow> int" where
  "LastIndex s sub =
     (case filter (\<lambda>i. prefix sub (drop i s)) (rev [0..<Suc (length s)]) of
        [] \<Rightarrow> -1
      | i # _ \<Rightarrow> int i)"

text \<open>\<open>strings.Split\<close> with a one-byte separator, the only way the parser calls it.\<close>

fun Split :: "string \<Rightarrow> char \<Rightarrow> string list" where
  "Split [] sep = [] # []"
| "Split (c # cs) sep =
     (if c = sep then [] # Split cs sep
      else (case Split cs sep of [] \<Rightarrow> [c] # [] | p # ps \<Rightarrow> (c # p) # ps))"

text \<open>The Go slice expression \<open>s[a:b]\<close>.\<close>

definition slice :: "string \<Rightarrow> nat \<Rightarrow> nat \<Rightarrow> string" where
  "slice s a b = take (b - a) (drop a s)"


text \<open>The bytes that occur in the encoding of some white-space rune.\<close>

definition spaceBytes :: "char set" where
  "spaceBytes = set (concat spaceSeqs)"

lemma length_trimLeft: "length (trimLeft s) \<le> length s"
proof (induction s rule: trimLeft.induct)
  case (1 s)
  show ?case
  proof (cases "find (\<lambda>p. prefix p s) spaceSeqs")
    case None
    then show ?thesis by (simp add: trimLeft.simps [of s])
  next
    case (Some p)
    with 1 have "length (trimLeft (drop (length p) s)) \<le> length (drop (length p) s)" by simp
    with Some show ?thesis by (simp add: trimLeft.simps [of s])
  qed
qed

lemma length_trimRight: "length (trimRight s) \<le> length s"
proof (induction s rule: trimRight.induct)
  case (1 s)
  show ?case
  proof (cases "find (\<lambda>p. suffix p s) spaceSeqs")
    case None
    then show ?thesis by (simp add: trimRight.simps [of s])
  next
    case (Some p)
    with 1 have "length (trimRight (take (length s - length p) s))
                   \<le> length (take (length s - length p) s)" by simp
    with Some show ?thesis by (simp add: trimRight.simps [of s])
  qed
qed

lemma length_TrimSpace: "length (TrimSpace s) \<le> length s"
  unfolding TrimSpace_def
  using length_trimRight [of "trimLeft s"] length_trimLeft [of s] by simp

section \<open>contract.go\<close>

text \<open>
  The local \<open>depth\<close> of the two scanners is a Go \<open>int\<close>.  It changes by one for
  each byte read, so it stays inside the range of a machine integer for every string
  that fits in memory, and it is modelled as an unbounded \<open>int\<close>.  Every index and
  slice expression of \<open>contract.go\<close> is evaluated behind a length test or a
  \<open>HasPrefix\<close> test that keeps it in range, so no function of the file panics.
\<close>

datatype Kind = Require | Must

record Directive =
  Kind :: Kind
  ND :: bool
  Ret :: bool
  Log :: bool
  RetExprs :: "string list"
  Vars :: "string list"
  Expr :: string
  Message :: string

text \<open>The zero-valued \<open>Directive\<close> of a kind, \<open>&Directive{Kind: k}\<close>.\<close>

definition newDirective :: "Kind \<Rightarrow> Directive" where
  "newDirective k =
     \<lparr>Kind = k, ND = False, Ret = False, Log = False, RetExprs = [], Vars = [],
      Expr = [], Message = []\<rparr>"

subsection \<open>splitTopLevelCommas\<close>

text \<open>
  The loop of \<open>splitTopLevelCommas\<close> over the index \<open>i\<close>, with the local variables
  \<open>depth\<close>, \<open>inString\<close>, \<open>escaped\<close>, \<open>start\<close> and \<open>parts\<close>.  It returns \<open>parts\<close> and
  \<open>start\<close> as they are when the loop ends.
\<close>

function splitLoop ::
  "string \<Rightarrow> nat \<Rightarrow> int \<Rightarrow> bool \<Rightarrow> bool \<Rightarrow> nat \<Rightarrow> string list \<Rightarrow> string list \<times> nat"
where
  "splitLoop s i depth inString escaped start parts =
     (if i < length s then
        (let c = s ! i in
         if escaped then splitLoop s (Suc i) depth inString False start parts
         else if c = CHR 0x5C \<and> inString then splitLoop s (Suc i) depth inString True start parts
         else if c = CHR 0x22 then splitLoop s (Suc i) depth (\<not> inString) escaped start parts
         else if inString then splitLoop s (Suc i) depth inString escaped start parts
         else if c = CHR ''('' \<or> c = CHR ''['' \<or> c = CHR ''{'' then
           splitLoop s (Suc i) (depth + 1) inString escaped start parts
         else if c = CHR '')'' \<or> c = CHR '']'' \<or> c = CHR ''}'' then
           splitLoop s (Suc i) (depth - 1) inString escaped start parts
         else if c = CHR '','' then
           (if depth = 0 then
              (let part = TrimSpace (slice s start i) in
               splitLoop s (Suc i) depth inString escaped (Suc i)
                 (if part \<noteq> [] then parts @ [part] else parts))
            else splitLoop s (Suc i) depth inString escaped start parts)
         else splitLoop s (Suc i) depth inString escaped start parts)
      else (parts, start))"
  by pat_completeness auto
termination
  by (relation "measure (\<lambda>(s, i, depth, inString, escaped, start, parts). length s - i)") auto

declare splitLoop.simps [simp del]

definition splitTopLevelCommas :: "string \<Rightarrow> string list" where
  "splitTopLevelCommas s =
     (case splitLoop s 0 0 False False 0 [] of
        (parts, start) \<Rightarrow>
          (let part = TrimSpace (drop start s) in
           if part \<noteq> [] then parts @ [part] else parts))"

subsection \<open>parseRetExprs\<close>

text \<open>
  The loop of \<open>parseRetExprs\<close> that looks for the closing parenthesis; it returns
  \<open>closeIdx\<close>, which stays \<open>-1\<close> when the loop ends without a \<open>break\<close>.
\<close>

function closeLoop :: "string \<Rightarrow> nat \<Rightarrow> int \<Rightarrow> bool \<Rightarrow> bool \<Rightarrow> int" where
  "closeLoop s i depth inString escaped =
     (if i < length s then
        (let c = s ! i in
         if escaped then closeLoop s (Suc i) depth inString False
         else if c = CHR 0x5C \<and> inString then closeLoop s (Suc i) depth inString True
         else if c = CHR 0x22 then closeLoop s (Suc i) depth (\<not> inString) escaped
         else if inString then closeLoop s (Suc i) depth inString escaped
         else if c = CHR ''('' then closeLoop s (Suc i) (depth + 1) inString escaped
         else if c = CHR '')'' then
           (if depth - 1 = 0 then int i
            else closeLoop s (Suc i) (depth - 1) inString escaped)
         else closeLoop s (Suc i) depth inString escaped)
      else -1)"
  by pat_completeness auto
termination
  by (relation "measure (\<lambda>(s, i, depth, inString, escaped). length s - i)") auto

declare closeLoop.simps [simp del]

text \<open>The result is \<open>(exprs, remaining, ok)\<close>; a \<open>nil\<close> slice is the empty list.\<close>

definition parseRetExprs :: "string \<Rightarrow> string list \<times> string \<times> bool" where
  "parseRetExprs s =
     (if length s = 0 \<or> s ! 0 \<noteq> CHR ''('' then ([], s, False)
      else
        (let closeIdx = closeLoop s 0 0 False False in
         if closeIdx < 0 then ([], s, False)
         else
           (let inner = slice s 1 (nat closeIdx);
                remaining = drop (nat closeIdx + 1) s;
                exprs = splitTopLevelCommas inner
            in if length exprs = 0 then ([], remaining, False)
               else (exprs, remaining, True))))"


lemma length_parseRetExprs: "length (fst (snd (parseRetExprs s))) \<le> length s"
  by (simp add: parseRetExprs_def Let_def)

subsection \<open>parseRequire and parseMust\<close>

lemma HasPrefix_length: "HasPrefix rest p \<Longrightarrow> length p \<le> length rest"
  by (auto simp: HasPrefix_def prefix_def)

lemma nd_step: "HasPrefix rest ''-nd'' \<Longrightarrow> length (TrimSpace (drop 3 rest)) < length rest"
  using HasPrefix_length [of rest "''-nd''"] length_TrimSpace [of "drop 3 rest"] by simp

lemma ret_step: "HasPrefix rest ''-ret'' \<Longrightarrow> length (TrimSpace (drop 4 rest)) < length rest"
  using HasPrefix_length [of rest "''-ret''"] length_TrimSpace [of "drop 4 rest"] by simp

lemma log_step: "HasPrefix rest ''-log'' \<Longrightarrow> length (TrimSpace (drop 4 rest)) < length rest"
  using HasPrefix_length [of rest "''-log''"] length_TrimSpace [of "drop 4 rest"] by simp

lemma ret_step2:
  "HasPrefix rest ''-ret'' \<Longrightarrow> length (TrimSpace (TrimSpace (drop 4 rest))) < length rest"
  using ret_step [of rest] length_TrimSpace [of "TrimSpace (drop 4 rest)"] by simp

lemma parse_step:
  "HasPrefix rest ''-ret'' \<Longrightarrow> (exprs, remaining, ok) = parseRetExprs (TrimSpace (drop 4 rest))
   \<Longrightarrow> length (TrimSpace remaining) < length rest"
  using length_TrimSpace [of remaining] length_parseRetExprs [of "TrimSpace (drop 4 rest)"]
    ret_step [of rest] by (cases "parseRetExprs (TrimSpace (drop 4 rest))") simp

text \<open>
  The flag loop \<open>for { ... }\<close> of \<open>parseRequire\<close>.  The state is the directive under
  construction and \<open>rest\<close>; the result is the state at the \<open>break\<close>.
\<close>

function requireFlags :: "Directive \<Rightarrow> string \<Rightarrow> Directive \<times> string" where
  "requireFlags d rest =
     (if HasPrefix rest ''-nd'' then
        requireFlags (d\<lparr>ND := True\<rparr>) (TrimSpace (drop 3 rest))
      else if HasPrefix rest ''-ret'' then
        (let d = d\<lparr>Ret := True\<rparr>; after = drop 4 rest in
         if HasPrefix (TrimSpace after) ''('' then
           (let after = TrimSpace after in
            case parseRetExprs after of
              (exprs, remaining, ok) \<Rightarrow>
                if ok then requireFlags (d\<lparr>RetExprs := exprs\<rparr>) (TrimSpace remaining)
                else requireFlags d (TrimSpace after))
         else requireFlags d (TrimSpace after))
      else if HasPrefix rest ''-log'' then
        requireFlags (d\<lparr>Log := True, Ret := True\<rparr>) (TrimSpace (drop 4 rest))
      else (d, rest))"
  by pat_completeness auto
termination
  by (relation "measure (\<lambda>(d, rest). length rest)")
     (auto simp: nd_step ret_step ret_step2 log_step intro: parse_step)

text \<open>The flag loop of \<open>parseMust\<close>; it has no \<open>-nd\<close> branch.\<close>

function mustFlags :: "Directive \<Rightarrow> string \<Rightarrow> Directive \<times> string" where
  "mustFlags d rest =
     (if HasPrefix rest ''-ret'' then
        (let d = d\<lparr>Ret := True\<rparr>; after = drop 4 rest in
         if HasPrefix (TrimSpace after) ''('' then
           (let after = TrimSpace after in
            case parseRetExprs after of
              (exprs, remaining, ok) \<Rightarrow>
                if ok then mustFlags (d\<lparr>RetExprs := exprs\<rparr>) (TrimSpace remaining)
                else mustFlags d (TrimSpace after))
         else mustFlags d (TrimSpace after))
      else if HasPrefix rest ''-log'' then
        mustFlags (d\<lparr>Log := True, Ret := True\<rparr>) (TrimSpace (drop 4 rest))
      else (d, rest))"
  by pat_completeness auto
termination
  by (relation "measure (\<lambda>(d, rest). length rest)")
     (auto simp: ret_step ret_step2 log_step intro: parse_step)

declare requireFlags.simps [simp del] mustFlags.simps [simp del]

definition parseMust :: "string \<Rightarrow> Directive" where
  "parseMust rest0 =
     (let rest = TrimSpace rest0; d = newDirective Must
      in fst (mustFlags d rest))"

text \<open>
  The loop \<open>for _, v := range strings.Split(rest, ",")\<close> of \<open>parseRequire\<close>, appending
  to \<open>d.Vars\<close>.
\<close>

fun appendVars :: "string list \<Rightarrow> string list \<Rightarrow> string list" where
  "appendVars vars [] = vars"
| "appendVars vars (v # vs) =
     (let v = TrimSpace v in
      if v \<noteq> [] then appendVars (vars @ [v]) vs else appendVars vars vs)"

definition parseRequire :: "string \<Rightarrow> Directive" where
  "parseRequire rest0 =
     (let rest = TrimSpace rest0; d = newDirective Require in
      if rest = [] then d
      else
        (case requireFlags d rest of
           (d, rest) \<Rightarrow>
             if rest = [] then d
             else if ND d then d\<lparr>Vars := appendVars (Vars d) (Split rest (CHR '',''))\<rparr>
             else
               (let idx = LastIndex rest '','' in
                if idx \<ge> 0 then
                  (let candidate = TrimSpace (drop (nat (idx + 1)) rest) in
                   if length candidate \<ge> 2 \<and> candidate ! 0 = CHR 0x22
                      \<and> candidate ! (length candidate - 1) = CHR 0x22
                   then d\<lparr>Expr := TrimSpace (take (nat idx) rest),
                          Message := slice candidate 1 (length candidate - 1)\<rparr>
                   else d\<lparr>Expr := rest\<rparr>)
                else d\<lparr>Expr := rest\<rparr>)))"

text \<open>\<open>ParseDirective\<close> returns a pointer; \<open>nil\<close> is \<open>None\<close>.\<close>

definition stripMarkers :: "string \<Rightarrow> string" where
  "stripMarkers text =
     (let s = TrimSpace text in
      if HasPrefix s ''//'' then TrimSpace (drop 2 s)
      else if HasPrefix s ''/*'' then TrimSpace (TrimSuffix (TrimPrefix s ''/*'') ''*/'')
      else s)"

definition ParseDirective :: "string \<Rightarrow> Directive option" where
  "ParseDirective text =
     (let s = stripMarkers text in
      if \<not> HasPrefix s ''@'' then None
      else if HasPrefix s ''@require'' then Some (parseRequire (TrimPrefix s ''@require''))
      else if HasPrefix s ''@must'' then Some (parseMust (TrimPrefix s ''@must''))
      else None)"

section \<open>directive.go\<close>

text \<open>
  \<open>directive.go\<close> holds a second parser, for the grammar \<open>@require <expr> panic(args)\<close> with
  an optional \<open>panic\<close> action.
  It declares \<open>Directive\<close> and \<open>ParseDirective\<close> again; the suffix \<open>_dgo\<close> marks its
  definitions where the name is taken by \<open>contract.go\<close>.  The types \<open>ActionKind\<close>,
  \<open>DirectiveKind\<close> and \<open>Directive\<close> are those of the file that declares \<open>ActionPanic\<close>
  as the only action.
\<close>

datatype ActionKind = ActionPanic

datatype DirectiveKind = KindRequire | KindMust | KindExpect | KindEnsure

record Directive_dgo =
  Kind_dgo :: DirectiveKind
  Action :: ActionKind
  ActionArgs :: "string list"
  Expr_dgo :: string

text \<open>
  The loop of \<open>splitTopLevel\<close>; the \<open>i++\<close> inside the \<open>case inStr\<close> skips the byte after
  a backslash.  It returns \<open>result\<close> and \<open>start\<close> as they are when the loop ends.
\<close>

function splitTopLoop ::
  "string \<Rightarrow> nat \<Rightarrow> int \<Rightarrow> bool \<Rightarrow> nat \<Rightarrow> string list \<Rightarrow> string list \<times> nat"
where
  "splitTopLoop s i depth inStr start result =
     (if i < length s then
        (let ch = s ! i in
         if ch = CHR 0x22 \<and> \<not> inStr then splitTopLoop s (Suc i) depth True start result
         else if ch = CHR 0x22 \<and> inStr \<and> (i = 0 \<or> s ! (i - 1) \<noteq> CHR 0x5C) then
           splitTopLoop s (Suc i) depth False start result
         else if inStr then
           (if ch = CHR 0x5C then splitTopLoop s (Suc (Suc i)) depth inStr start result
            else splitTopLoop s (Suc i) depth inStr start result)
         else if ch = CHR ''('' \<or> ch = CHR ''['' \<or> ch = CHR ''{'' then
           splitTopLoop s (Suc i) (depth + 1) inStr start result
         else if ch = CHR '')'' \<or> ch = CHR '']'' \<or> ch = CHR ''}'' then
           splitTopLoop s (Suc i) (depth - 1) inStr start result
         else if ch = CHR '','' \<and> depth = 0 then
           splitTopLoop s (Suc i) depth inStr (Suc i) (result @ [TrimSpace (slice s start i)])
         else splitTopLoop s (Suc i) depth inStr start result)
      else (result, start))"
  by pat_completeness auto
termination
  by (relation "measure (\<lambda>(s, i, depth, inStr, start, result). length s - i)") auto

declare splitTopLoop.simps [simp del]

definition splitTopLevel :: "string \<Rightarrow> string list" where
  "splitTopLevel s =
     (case splitTopLoop s 0 0 False 0 [] of
        (result, start) \<Rightarrow>
          (let last = TrimSpace (drop start s) in
           if last \<noteq> [] then result @ [last] else result))"

text \<open>
  The inner loop of \<open>parseActionArgs\<close> that skips a string literal: it starts behind the
  opening quote and returns the index at which it stops.
\<close>

function skipString :: "string \<Rightarrow> nat \<Rightarrow> nat" where
  "skipString s i =
     (if i < length s \<and> s ! i \<noteq> CHR 0x22 then
        skipString s (if s ! i = CHR 0x5C then Suc (Suc i) else Suc i)
      else i)"
  by pat_completeness auto
termination
  by (relation "measure (\<lambda>(s, i). length s - i)") auto

declare skipString.simps [simp del]

lemma skipString_ge: "i \<le> skipString s i"
proof (induction s i rule: skipString.induct)
  case (1 s i)
  show ?case
  proof (cases "i < length s \<and> s ! i \<noteq> CHR 0x22")
    case True
    with 1 have "(if s ! i = CHR 0x5C then Suc (Suc i) else Suc i)
                 \<le> skipString s (if s ! i = CHR 0x5C then Suc (Suc i) else Suc i)" by simp
    moreover have "skipString s i = skipString s (if s ! i = CHR 0x5C then Suc (Suc i) else Suc i)"
      using True by (simp add: skipString.simps [of s i])
    ultimately show ?thesis by (simp split: if_splits)
  next
    case False
    then show ?thesis by (auto simp: skipString.simps [of s i])
  qed
qed

text \<open>The outer loop of \<open>parseActionArgs\<close>, with its result \<open>(args, remaining, ok)\<close>.\<close>

function actionLoop :: "string \<Rightarrow> nat \<Rightarrow> int \<Rightarrow> string list \<times> string \<times> bool" where
  "actionLoop s i depth =
     (if i < length s then
        (if s ! i = CHR ''('' then actionLoop s (Suc i) (depth + 1)
         else if s ! i = CHR '')'' then
           (if depth - 1 = 0 then (splitTopLevel (slice s 1 i), drop (i + 1) s, True)
            else actionLoop s (Suc i) (depth - 1))
         else if s ! i = CHR 0x22 then actionLoop s (Suc (skipString s (Suc i))) depth
         else actionLoop s (Suc i) depth)
      else ([], s, False))"
  by pat_completeness auto
termination
proof (relation "measure (\<lambda>(s, i, depth). length s - i)", goal_cases)
  case (4 s i depth)
  then show ?case using skipString_ge [of "Suc i" s] by simp
qed auto

declare actionLoop.simps [simp del]

definition parseActionArgs :: "string \<Rightarrow> string list \<times> string \<times> bool" where
  "parseActionArgs s =
     (if length s = 0 \<or> s ! 0 \<noteq> CHR ''('' then ([], s, False) else actionLoop s 0 0)"

definition parseRequireRest :: "Directive_dgo \<Rightarrow> string \<Rightarrow> Directive_dgo option" where
  "parseRequireRest d rest =
     (if rest = [] then None
      else
        (let idx = LastIndex rest '' panic('';
             argStart = nat idx + length '' panic'';
             parsed = (if idx \<ge> 0 then parseActionArgs (drop argStart rest)
                       else ([], [], False))
         in case parsed of
              (args, remaining, ok) \<Rightarrow>
                if idx \<ge> 0 \<and> ok \<and> TrimSpace remaining = [] then
                  (let d = d\<lparr>ActionArgs := args, Expr_dgo := TrimSpace (take (nat idx) rest)\<rparr>
                   in if Expr_dgo d = [] then None else Some d)
                else if HasSuffix rest '' panic'' then
                  (let d = d\<lparr>Expr_dgo :=
                             TrimSpace (take (length rest - length '' panic'') rest)\<rparr>
                   in if Expr_dgo d = [] then None else Some d)
                else Some (d\<lparr>Expr_dgo := rest\<rparr>)))"

definition parseInlineRest :: "Directive_dgo \<Rightarrow> string \<Rightarrow> Directive_dgo option" where
  "parseInlineRest d rest =
     (if rest = [] then Some d
      else if \<not> HasPrefix rest ''panic'' then None
      else
        (let after = drop (length ''panic'') rest in
         if length after > 0 \<and> after ! 0 \<noteq> CHR '' '' \<and> after ! 0 \<noteq> CHR 0x09
            \<and> after ! 0 \<noteq> CHR ''('' then None
         else
           (let after = TrimSpace after in
            if HasPrefix after ''('' then
              (case parseActionArgs after of
                 (args, remaining, ok) \<Rightarrow> if ok then Some (d\<lparr>ActionArgs := args\<rparr>) else Some d)
            else Some d)))"

text \<open>
  A call either returns or panics.  The only panic of \<open>directive.go\<close> is in
  \<open>stripComment\<close>: for the three bytes \<open>/*/\<close>, which begin with \<open>/*\<close> and end with
  \<open>*/\<close>, the slice expression \<open>s[2 : len(s)-2]\<close> has its upper bound below its lower
  bound.
\<close>

datatype 'a outcome = Panic | Return 'a

definition stripComment :: "string \<Rightarrow> string outcome" where
  "stripComment s0 =
     (let s = TrimSpace s0 in
      if HasPrefix s ''//'' then Return (TrimSpace (drop 2 s))
      else if HasPrefix s ''/*'' \<and> HasSuffix s ''*/'' then
        (if 2 \<le> int (length s) - 2 then Return (TrimSpace (slice s 2 (length s - 2)))
         else Panic)
      else Return [])"

text \<open>
  \<open>keywords\<close> is a Go map; \<open>keywordTable\<close> lists its entries.  The loop
  \<open>for kw, k := range keywords\<close> visits them in an order that Go leaves open, so
  \<open>ParseDirective_dgo\<close> takes the order of the visit as an argument: a list with the
  entries of \<open>keywordTable\<close>.  The loop stops at the first keyword that is a prefix of the comment.
\<close>

definition keywordTable :: "(string \<times> DirectiveKind) list" where
  "keywordTable =
     [(''@require'', KindRequire), (''@must'', KindMust), (''@expect'', KindExpect),
      (''@ensure'', KindEnsure)]"

fun kindParsers :: "DirectiveKind \<Rightarrow> (Directive_dgo \<Rightarrow> string \<Rightarrow> Directive_dgo option) option" where
  "kindParsers KindRequire = Some parseRequireRest"
| "kindParsers KindMust = Some parseInlineRest"
| "kindParsers KindExpect = Some parseInlineRest"
| "kindParsers KindEnsure = Some parseRequireRest"

definition ParseDirective_dgo ::
  "(string \<times> DirectiveKind) list \<Rightarrow> string \<Rightarrow> Directive_dgo option outcome" where
  "ParseDirective_dgo order comment =
     (case stripComment comment of
        Panic \<Rightarrow> Panic
      | Return s \<Rightarrow>
          Return
            (if s = [] then None
             else
               (case find (\<lambda>(kw, k). HasPrefix s kw) order of
                  None \<Rightarrow> None
                | Some (keyword, kind) \<Rightarrow>
                    (let rest = TrimSpace (drop (length keyword) s);
                         d = \<lparr>Kind_dgo = kind, Action = ActionPanic, ActionArgs = [],
                              Expr_dgo = []\<rparr>
                     in case kindParsers kind of
                          Some parse \<Rightarrow> parse d rest
                        | None \<Rightarrow> Some d))))"

section \<open>Notions of the specification\<close>

subsection \<open>The text that remains after the flags\<close>

text \<open>
  The claims speak of the remaining text of a \<open>@require\<close> comment: what \<open>rest\<close> holds
  when the flag loop of \<open>parseRequire\<close> ends.
\<close>

definition remainingText :: "string \<Rightarrow> string" where
  "remainingText text =
     snd (requireFlags (newDirective Require)
            (TrimSpace (TrimPrefix (stripMarkers text) ''@require'')))"

subsection \<open>Top-level commas, as the specification describes them\<close>

text \<open>
  The specification describes the splitter by the positions where it cuts: the commas at
  bracket depth zero outside string literals.  \<open>spec_scanStep\<close> is the reading of one
  byte (brackets of the three kinds change the depth, a double quote opens or closes a
  literal, a backslash inside a literal escapes the next byte); \<open>spec_scan\<close> is the
  state after a prefix; \<open>spec_topLevelComma s i\<close> says that the byte at \<open>i\<close> is a
  comma read at depth zero outside a literal; \<open>spec_pieces\<close> cuts the text at these
  positions.  These definitions follow the specification's words and are compared with
  the loop of \<open>splitTopLevelCommas\<close> below.
\<close>

fun spec_scanStep :: "int \<times> bool \<times> bool \<Rightarrow> char \<Rightarrow> int \<times> bool \<times> bool" where
  "spec_scanStep (depth, inString, escaped) c =
     (if escaped then (depth, inString, False)
      else if inString then
        (if c = CHR 0x5C then (depth, True, True)
         else if c = CHR 0x22 then (depth, False, False)
         else (depth, True, False))
      else if c = CHR 0x22 then (depth, True, False)
      else if c = CHR ''('' \<or> c = CHR ''['' \<or> c = CHR ''{'' then (depth + 1, False, False)
      else if c = CHR '')'' \<or> c = CHR '']'' \<or> c = CHR ''}'' then (depth - 1, False, False)
      else (depth, False, False))"

definition spec_scan :: "string \<Rightarrow> int \<times> bool \<times> bool" where
  "spec_scan s = foldl spec_scanStep (0, False, False) s"

definition spec_topLevelComma :: "string \<Rightarrow> nat \<Rightarrow> bool" where
  "spec_topLevelComma s i =
     (i < length s \<and> s ! i = CHR '','' \<and> fst (spec_scan (take i s)) = 0
      \<and> \<not> fst (snd (spec_scan (take i s))) \<and> \<not> snd (snd (spec_scan (take i s))))"

definition spec_piecesFrom :: "string \<Rightarrow> nat \<Rightarrow> nat \<Rightarrow> string list" where
  "spec_piecesFrom s start i =
     (let commas = filter (spec_topLevelComma s) [i..<length s]
      in map (\<lambda>(a, b). slice s a b) (zip (start # map Suc commas) (commas @ [length s])))"

definition spec_pieces :: "string \<Rightarrow> string list" where
  "spec_pieces s = spec_piecesFrom s 0 0"


text \<open>The statements after the loop of \<open>splitTopLevelCommas\<close>, on the loop's result.\<close>

definition finishSplit :: "string \<Rightarrow> string list \<times> nat \<Rightarrow> string list" where
  "finishSplit s r =
     (case r of (parts, start) \<Rightarrow>
        (let part = TrimSpace (drop start s) in if part \<noteq> [] then parts @ [part] else parts))"

subsection \<open>Comments built from a keyword, flags and a payload\<close>










definition rtrimmed :: "string \<Rightarrow> bool" where
  "rtrimmed s = (\<forall>q\<in>set spaceSeqs. \<not> suffix q s)"

subsection \<open>The keyword rule of the specification\<close>



section \<open>Trimming stops at a byte that is not part of a white-space rune\<close>

lemma spaceSeq_bytes: "q \<in> set spaceSeqs \<Longrightarrow> set q \<subseteq> spaceBytes"
  by (auto simp: spaceBytes_def)

lemma prefix_barrier:
  assumes "q \<in> set spaceSeqs" "c \<notin> spaceBytes"
  shows "prefix q (x @ c # y) \<longleftrightarrow> prefix q x"
proof
  assume "prefix q (x @ c # y)"
  then have "prefix q x \<or> (\<exists>us. q = x @ us \<and> prefix us (c # y))"
    by (simp add: prefix_append)
  moreover have "prefix q x" if "q = x @ us" "prefix us (c # y)" for us
  proof (cases us)
    case Nil
    with that show ?thesis by simp
  next
    case (Cons u us')
    with that have "c \<in> set q" by simp
    with assms spaceSeq_bytes show ?thesis by blast
  qed
  ultimately show "prefix q x" by blast
next
  assume "prefix q x" then show "prefix q (x @ c # y)" by (simp add: prefix_prefix)
qed

lemma suffix_barrier:
  assumes "q \<in> set spaceSeqs" "c \<notin> spaceBytes"
  shows "suffix q (x @ c # y) \<longleftrightarrow> suffix q y"
proof
  assume "suffix q (x @ c # y)"
  then have "suffix q ((x @ [c]) @ y)" by simp
  then have "suffix q y \<or> (\<exists>us. q = us @ y \<and> suffix us (x @ [c]))"
    unfolding suffix_append by blast
  moreover have "suffix q y" if "q = us @ y" "suffix us (x @ [c])" for us
  proof (cases us rule: rev_cases)
    case Nil
    with that show ?thesis by simp
  next
    case (snoc us' u)
    with that have "c \<in> set q" by simp
    with assms spaceSeq_bytes show ?thesis by blast
  qed
  ultimately show "suffix q y" by blast
next
  assume "suffix q y"
  then have "suffix q ((x @ [c]) @ y)" by (rule suffix_appendI)
  then show "suffix q (x @ c # y)" by simp
qed

lemma find_prefix_barrier:
  "c \<notin> spaceBytes \<Longrightarrow>
   find (\<lambda>p. prefix p (x @ c # y)) spaceSeqs = find (\<lambda>p. prefix p x) spaceSeqs"
  by (rule find_cong) (simp_all add: prefix_barrier)

lemma find_suffix_barrier:
  "c \<notin> spaceBytes \<Longrightarrow>
   find (\<lambda>p. suffix p (x @ c # y)) spaceSeqs = find (\<lambda>p. suffix p y) spaceSeqs"
  by (rule find_cong) (simp_all add: suffix_barrier)

lemma trimLeft_barrier:
  assumes "c \<notin> spaceBytes"
  shows "\<exists>z. suffix z x \<and> (\<forall>y. trimLeft (x @ c # y) = z @ c # y)"
proof (induction x rule: length_induct)
  case (1 x)
  show ?case
  proof (cases "find (\<lambda>p. prefix p x) spaceSeqs")
    case None
    then have "\<forall>y. trimLeft (x @ c # y) = x @ c # y"
      using assms by (simp add: trimLeft.simps [of "x @ c # y" for y] find_prefix_barrier)
    then show ?thesis by blast
  next
    case (Some p)
    then have p: "p \<noteq> []" "prefix p x" using find_spaceSeqs_prefix by blast+
    then obtain x' where x: "x = p @ x'" by (auto simp: prefix_def)
    with p have "length x' < length x" by simp
    with 1 obtain z where z: "suffix z x'" "\<forall>y. trimLeft (x' @ c # y) = z @ c # y" by blast
    have "\<forall>y. trimLeft (x @ c # y) = z @ c # y"
      using assms Some z(2) x
      by (simp add: trimLeft.simps [of "p @ x' @ c # y" for y] find_prefix_barrier [of c "p @ x'", simplified])
    moreover have "suffix z x" using z(1) x by (simp add: suffix_appendI)
    ultimately show ?thesis by blast
  qed
qed

lemma trimRight_barrier:
  assumes "c \<notin> spaceBytes"
  shows "trimRight (x @ c # y) = x @ c # trimRight y"
proof (induction y rule: length_induct)
  case (1 y)
  show ?case
  proof (cases "find (\<lambda>p. suffix p y) spaceSeqs")
    case None
    then show ?thesis
      using assms by (simp add: trimRight.simps [of "x @ c # y"] trimRight.simps [of y] find_suffix_barrier)
  next
    case (Some p)
    then have p: "p \<noteq> []" "suffix p y" using find_spaceSeqs_suffix by blast+
    then obtain y' where y: "y = y' @ p" by (auto simp: suffix_def)
    with p have "length y' < length y" by simp
    with 1 have IH: "trimRight (x @ c # y') = x @ c # trimRight y'" by blast
    have "trimRight (x @ c # y) = trimRight (x @ c # y')"
      using assms Some y by (simp add: trimRight.simps [of "x @ c # y' @ p"] find_suffix_barrier)
    moreover have "trimRight y = trimRight y'"
      using Some y by (simp add: trimRight.simps [of "y' @ p"])
    ultimately show ?thesis using IH by simp
  qed
qed

section \<open>Invariants of the flag loops\<close>

lemma requireFlags_invariant:
  assumes "P d"
    and "\<And>d. P d \<Longrightarrow> P (d\<lparr>ND := True\<rparr>)"
    and "\<And>d. P d \<Longrightarrow> P (d\<lparr>Ret := True\<rparr>)"
    and "\<And>d e. P d \<Longrightarrow> P (d\<lparr>RetExprs := e\<rparr>)"
    and "\<And>d. P d \<Longrightarrow> P (d\<lparr>Log := True, Ret := True\<rparr>)"
  shows "P (fst (requireFlags d rest))"
  using assms(1)
proof (induction d rest rule: requireFlags.induct)
  case (1 d rest)
  show ?case
    apply (subst requireFlags.simps)
    using 1 assms(2-) by (auto simp: Let_def split: prod.splits)
qed

lemma mustFlags_invariant:
  assumes "P d"
    and "\<And>d. P d \<Longrightarrow> P (d\<lparr>Ret := True\<rparr>)"
    and "\<And>d e. P d \<Longrightarrow> P (d\<lparr>RetExprs := e\<rparr>)"
    and "\<And>d. P d \<Longrightarrow> P (d\<lparr>Log := True, Ret := True\<rparr>)"
  shows "P (fst (mustFlags d rest))"
  using assms(1)
proof (induction d rest rule: mustFlags.induct)
  case (1 d rest)
  show ?case
    apply (subst mustFlags.simps)
    using 1 assms(2-) by (auto simp: Let_def split: prod.splits)
qed


lemma requireFlags_Nil: "requireFlags d [] = (d, [])"
  by (simp add: requireFlags.simps [of d "[]"] HasPrefix_def)

lemma parseRequire_flags:
  "Kind (parseRequire r) = Kind (fst (requireFlags (newDirective Require) (TrimSpace r)))
   \<and> ND (parseRequire r) = ND (fst (requireFlags (newDirective Require) (TrimSpace r)))
   \<and> Ret (parseRequire r) = Ret (fst (requireFlags (newDirective Require) (TrimSpace r)))
   \<and> Log (parseRequire r) = Log (fst (requireFlags (newDirective Require) (TrimSpace r)))
   \<and> RetExprs (parseRequire r)
       = RetExprs (fst (requireFlags (newDirective Require) (TrimSpace r)))"
proof (cases "TrimSpace r = []")
  case True
  then show ?thesis by (simp add: parseRequire_def requireFlags_Nil)
next
  case False
  obtain d rest where "requireFlags (newDirective Require) (TrimSpace r) = (d, rest)"
    by (cases "requireFlags (newDirective Require) (TrimSpace r)")
  with False show ?thesis by (simp add: parseRequire_def Let_def)
qed

lemma parseRequire_Log_Ret: "Log (parseRequire r) \<longrightarrow> Ret (parseRequire r)"
proof -
  have "Log (fst (requireFlags (newDirective Require) x)) \<longrightarrow>
        Ret (fst (requireFlags (newDirective Require) x))" for x
    by (rule requireFlags_invariant) (simp_all add: newDirective_def)
  then show ?thesis by (simp add: parseRequire_flags)
qed

lemma parseMust_Log_Ret: "Log (parseMust r) \<longrightarrow> Ret (parseMust r)"
  unfolding parseMust_def Let_def
  by (rule mustFlags_invariant) (simp_all add: newDirective_def)

section \<open>The flag \<open>-log\<close> implies \<open>-ret\<close>\<close>

text \<open>
  Claim C5.  Whenever \<open>ParseDirective\<close> returns a directive whose \<open>Log\<close> field is set,
  its \<open>Ret\<close> field is set too: both flag loops set \<open>Ret\<close> together with \<open>Log\<close>, and no
  statement ever clears \<open>Ret\<close>.  This holds for \<open>@require\<close> and for \<open>@must\<close>.
\<close>

theorem ParseDirective_Log_implies_Ret:
  "ParseDirective text = Some d \<Longrightarrow> Log d \<Longrightarrow> Ret d"
  using parseRequire_Log_Ret parseMust_Log_Ret
  by (auto simp: ParseDirective_def Let_def split: if_splits)

theorem ParseDirective_Log_implies_Ret_witness:
  "ParseDirective ''// @must -log'' =
     Some \<lparr>Kind = Must, ND = False, Ret = True, Log = True, RetExprs = [], Vars = [],
           Expr = [], Message = []\<rparr>
   \<and> Log \<lparr>Kind = Must, ND = False, Ret = True, Log = True, RetExprs = [], Vars = [],
           Expr = [], Message = []\<rparr>
   \<and> Ret \<lparr>Kind = Must, ND = False, Ret = True, Log = True, RetExprs = [], Vars = [],
           Expr = [], Message = []\<rparr>"
proof -
  have a: "ParseDirective ''// @must -log'' =
     Some \<lparr>Kind = Must, ND = False, Ret = True, Log = True, RetExprs = [], Vars = [],
           Expr = [], Message = []\<rparr>"
    by code_simp
  have b: "Log \<lparr>Kind = Must, ND = False, Ret = True, Log = True, RetExprs = [], Vars = [],
           Expr = [], Message = []\<rparr>" by simp
  from ParseDirective_Log_implies_Ret [OF a b] a b show ?thesis by simp
qed


section \<open>Modes of a directive\<close>

lemma parseRequire_modes:
  "Kind (parseRequire r) = Require
   \<and> (ND (parseRequire r) \<longrightarrow> Expr (parseRequire r) = [] \<and> Message (parseRequire r) = [])
   \<and> (\<not> ND (parseRequire r) \<longrightarrow> Vars (parseRequire r) = [])"
proof (cases "TrimSpace r = []")
  case True
  then show ?thesis by (simp add: parseRequire_def newDirective_def)
next
  case False
  obtain d rest where dr: "requireFlags (newDirective Require) (TrimSpace r) = (d, rest)"
    by (cases "requireFlags (newDirective Require) (TrimSpace r)")
  have "Kind (fst (requireFlags (newDirective Require) (TrimSpace r))) = Require
        \<and> Vars (fst (requireFlags (newDirective Require) (TrimSpace r))) = []
        \<and> Expr (fst (requireFlags (newDirective Require) (TrimSpace r))) = []
        \<and> Message (fst (requireFlags (newDirective Require) (TrimSpace r))) = []"
    by (rule requireFlags_invariant) (simp_all add: newDirective_def)
  with dr have "Kind d = Require" "Vars d = []" "Expr d = []" "Message d = []" by simp_all
  with False dr show ?thesis by (simp add: parseRequire_def Let_def)
qed

lemma parseMust_modes:
  "Kind (parseMust r) = Must \<and> \<not> ND (parseMust r) \<and> Vars (parseMust r) = []
   \<and> Expr (parseMust r) = [] \<and> Message (parseMust r) = []"
  unfolding parseMust_def Let_def
  by (rule mustFlags_invariant) (simp_all add: newDirective_def)

text \<open>
  Claim C3, as the code has it.  Every directive returned by \<open>ParseDirective\<close> has at
  most one of the two modes active: never both a non-empty \<open>Vars\<close> and a non-empty
  \<open>Expr\<close>.  Non-empty \<open>Vars\<close> occur only in a \<open>Require\<close> directive with \<open>ND\<close> set, a
  non-empty \<open>Expr\<close> only in a \<open>Require\<close> directive with \<open>ND\<close> clear, and every \<open>Must\<close>
  directive has neither mode active (and no message).  A \<open>Require\<close> directive may have
  neither mode active as well.
\<close>

theorem ParseDirective_modes:
  "ParseDirective text = Some d \<Longrightarrow>
     (Vars d = [] \<or> Expr d = [])
     \<and> (Vars d \<noteq> [] \<longrightarrow> Kind d = Require \<and> ND d)
     \<and> (Expr d \<noteq> [] \<longrightarrow> Kind d = Require \<and> \<not> ND d)
     \<and> (Kind d = Must \<longrightarrow> Vars d = [] \<and> Expr d = [] \<and> Message d = [] \<and> \<not> ND d)"
  using parseRequire_modes [of "TrimPrefix (stripMarkers text) ''@require''"]
    parseMust_modes [of "TrimPrefix (stripMarkers text) ''@must''"]
  by (auto simp: ParseDirective_def Let_def split: if_splits)

theorem ParseDirective_modes_witness:
  "ParseDirective ''// @require -nd x, y'' =
     Some \<lparr>Kind = Require, ND = True, Ret = False, Log = False, RetExprs = [],
           Vars = [''x'', ''y''], Expr = [], Message = []\<rparr>
   \<and> ParseDirective ''// @require x > 0'' =
     Some \<lparr>Kind = Require, ND = False, Ret = False, Log = False, RetExprs = [],
           Vars = [], Expr = ''x > 0'', Message = []\<rparr>
   \<and> ParseDirective ''// @must'' =
     Some \<lparr>Kind = Must, ND = False, Ret = False, Log = False, RetExprs = [],
           Vars = [], Expr = [], Message = []\<rparr>"
proof -
  have a: "ParseDirective ''// @require -nd x, y'' =
     Some \<lparr>Kind = Require, ND = True, Ret = False, Log = False, RetExprs = [],
           Vars = [''x'', ''y''], Expr = [], Message = []\<rparr>"
    by code_simp
  have b: "ParseDirective ''// @require x > 0'' =
     Some \<lparr>Kind = Require, ND = False, Ret = False, Log = False, RetExprs = [],
           Vars = [], Expr = ''x > 0'', Message = []\<rparr>"
    by code_simp
  have c: "ParseDirective ''// @must'' =
     Some \<lparr>Kind = Must, ND = False, Ret = False, Log = False, RetExprs = [],
           Vars = [], Expr = [], Message = []\<rparr>"
    by code_simp
  from ParseDirective_modes [OF a] ParseDirective_modes [OF b] ParseDirective_modes [OF c]
    a b c
  show ?thesis by simp
qed

text \<open>
  Claim C3 as stated fails: \<open>// @require -nd\<close> yields a directive with neither mode
  active whose kind is \<open>Require\<close>, not \<open>Must\<close>.
\<close>

theorem ParseDirective_modes_counterexample:
  "ParseDirective ''// @require -nd'' =
     Some \<lparr>Kind = Require, ND = True, Ret = False, Log = False, RetExprs = [], Vars = [],
           Expr = [], Message = []\<rparr>"
  by code_simp

section \<open>A \<open>@require\<close> with no text\<close>

text \<open>
  Claim C1 as stated fails: \<open>// @require\<close> is not rejected.  \<open>parseRequire\<close> returns the
  zero-valued \<open>Require\<close> directive when nothing follows the keyword.
\<close>

theorem ParseDirective_empty_require_counterexample:
  "ParseDirective ''// @require'' =
     Some \<lparr>Kind = Require, ND = False, Ret = False, Log = False, RetExprs = [], Vars = [],
           Expr = [], Message = []\<rparr>
   \<and> ParseDirective ''// @require'' \<noteq> None"
  by code_simp

text \<open>
  Claim C1, as the code has it.  For every comment whose stripped content is the keyword
  \<open>@require\<close> followed by nothing but white space, \<open>ParseDirective\<close> returns the
  \<open>Require\<close> directive with every flag clear and every other field empty.
\<close>

theorem ParseDirective_empty_require:
  "stripMarkers text = ''@require'' @ w \<Longrightarrow> TrimSpace w = [] \<Longrightarrow>
   ParseDirective text = Some (newDirective Require)"
  by (simp add: ParseDirective_def HasPrefix_def TrimPrefix_def parseRequire_def)

theorem ParseDirective_empty_require_witness:
  "stripMarkers ''/* @require */'' = ''@require'' @ [] \<and> TrimSpace [] = []
   \<and> ParseDirective ''/* @require */'' = Some (newDirective Require)"
proof -
  have a: "stripMarkers ''/* @require */'' = ''@require'' @ []" by code_simp
  have b: "TrimSpace [] = []" by code_simp
  from ParseDirective_empty_require [OF a b] a b show ?thesis by blast
qed

section \<open>Comments that are not directives\<close>





section \<open>Comments without delimiters\<close>

lemma at_not_space: "CHR ''@'' \<notin> spaceBytes"
  by (simp add: spaceBytes_def spaceSeqs_def)

lemma slash_not_space: "CHR ''/'' \<notin> spaceBytes"
  by (simp add: spaceBytes_def spaceSeqs_def)

lemma find_prefix_Nil: "find (\<lambda>p. prefix p []) spaceSeqs = None"
  by (simp add: spaceSeqs_def)

lemma find_suffix_Nil: "find (\<lambda>p. suffix p []) spaceSeqs = None"
  by (simp add: spaceSeqs_def)

lemma trimLeft_head: "c \<notin> spaceBytes \<Longrightarrow> trimLeft (c # s) = c # s"
  using find_prefix_barrier [of c "[]" s] find_prefix_Nil
  by (simp add: trimLeft.simps [of "c # s"])

lemma trimLeft_space: "trimLeft (CHR '' '' # s) = trimLeft s"
  by (simp add: trimLeft.simps [of "CHR '' '' # s"] spaceSeqs_def)

lemma trimRight_no_suffix: "find (\<lambda>p. suffix p (trimRight s)) spaceSeqs = None"
proof (induction s rule: trimRight.induct)
  case (1 s)
  show ?case
  proof (cases "find (\<lambda>p. suffix p s) spaceSeqs")
    case None
    then show ?thesis by (simp add: trimRight.simps [of s])
  next
    case (Some p)
    with 1 show ?thesis by (simp add: trimRight.simps [of s])
  qed
qed

lemma trimRight_idem: "trimRight (trimRight s) = trimRight s"
  using trimRight_no_suffix [of s] by (simp add: trimRight.simps [of "trimRight s"])

lemma set_trimLeft: "set (trimLeft s) \<subseteq> set s"
proof (induction s rule: trimLeft.induct)
  case (1 s)
  show ?case
  proof (cases "find (\<lambda>p. prefix p s) spaceSeqs")
    case None
    then show ?thesis by (simp add: trimLeft.simps [of s])
  next
    case (Some p)
    with 1 have "set (trimLeft (drop (length p) s)) \<subseteq> set (drop (length p) s)" by simp
    also have "\<dots> \<subseteq> set s" by (rule set_drop_subset)
    finally show ?thesis using Some by (simp add: trimLeft.simps [of s])
  qed
qed

lemma set_trimRight: "set (trimRight s) \<subseteq> set s"
proof (induction s rule: trimRight.induct)
  case (1 s)
  show ?case
  proof (cases "find (\<lambda>p. suffix p s) spaceSeqs")
    case None
    then show ?thesis by (simp add: trimRight.simps [of s])
  next
    case (Some p)
    with 1 have "set (trimRight (take (length s - length p) s))
                   \<subseteq> set (take (length s - length p) s)" by simp
    also have "\<dots> \<subseteq> set s" by (rule set_take_subset)
    finally show ?thesis using Some by (simp add: trimRight.simps [of s])
  qed
qed

lemma set_TrimSpace: "set (TrimSpace s) \<subseteq> set s"
  unfolding TrimSpace_def using set_trimRight [of "trimLeft s"] set_trimLeft [of s] by blast

lemma trimmed_at_shape:
  assumes "TrimSpace text = CHR ''@'' # r"
  shows "\<exists>x y. text = x @ CHR ''@'' # y
           \<and> (\<forall>y'. trimLeft (x @ CHR ''@'' # y') = CHR ''@'' # y')
           \<and> TrimSpace text = CHR ''@'' # trimRight y"
proof -
  have "CHR ''@'' \<in> set text" using assms set_TrimSpace [of "text"] by auto
  then obtain x y where xy: "text = x @ CHR ''@'' # y" "CHR ''@'' \<notin> set x"
    by (auto dest: split_list_first)
  obtain z where z: "suffix z x" "\<forall>y'. trimLeft (x @ CHR ''@'' # y') = z @ CHR ''@'' # y'"
    using trimLeft_barrier [OF at_not_space, of x] by blast
  have T: "TrimSpace text = z @ CHR ''@'' # trimRight y"
    using z(2) xy(1) by (simp add: TrimSpace_def trimRight_barrier [OF at_not_space])
  have "z = []"
  proof (cases z)
    case Nil then show ?thesis .
  next
    case (Cons a z')
    with T assms have "a = CHR ''@''" by simp
    moreover have "a \<in> set x" using Cons z(1) by (auto simp: suffix_def)
    ultimately show ?thesis using xy(2) by simp
  qed
  with z T xy(1) show ?thesis by auto
qed

lemma stripMarkers_unmarked:
  assumes "TrimSpace text = CHR ''@'' # r"
  shows "stripMarkers text = TrimSpace text"
  using assms by (simp add: stripMarkers_def HasPrefix_def)

lemma stripMarkers_line:
  assumes "TrimSpace text = CHR ''@'' # r"
  shows "stripMarkers (''//'' @ text) = TrimSpace text"
    and "stripMarkers (''// '' @ text) = TrimSpace text"
proof -
  from trimmed_at_shape [OF assms] obtain x y where xy: "text = x @ CHR ''@'' # y"
    and tl: "\<And>y'. trimLeft (x @ CHR ''@'' # y') = CHR ''@'' # y'"
    and T: "TrimSpace text = CHR ''@'' # trimRight y"
    by blast
  have a: "TrimSpace (b @ x @ CHR ''@'' # y) = b @ x @ CHR ''@'' # trimRight y"
    if "b = ''//'' \<or> b = ''// ''" for b
  proof -
    from that obtain b' where "b = CHR ''/'' # b'" by auto
    then have "trimLeft (b @ x @ CHR ''@'' # y) = b @ x @ CHR ''@'' # y"
      by (simp add: trimLeft_head [OF slash_not_space])
    then show ?thesis
      using trimRight_barrier [OF at_not_space, of "b @ x" y] by (simp add: TrimSpace_def)
  qed
  have c: "TrimSpace (x @ CHR ''@'' # trimRight y) = CHR ''@'' # trimRight y"
    using trimRight_barrier [OF at_not_space, of "[]" "trimRight y"]
    by (simp add: TrimSpace_def tl trimRight_idem)
  have d: "TrimSpace (CHR '' '' # x @ CHR ''@'' # trimRight y) = CHR ''@'' # trimRight y"
    using c by (simp add: TrimSpace_def trimLeft_space)
  show "stripMarkers (''//'' @ text) = TrimSpace text"
    using a [of "''//''"] c T xy by (simp add: stripMarkers_def HasPrefix_def)
  show "stripMarkers (''// '' @ text) = TrimSpace text"
    using a [of "''// ''"] d T xy by (simp add: stripMarkers_def HasPrefix_def)
qed

text \<open>
  Claim C10.  \<open>ParseDirective\<close> does not require comment delimiters.  For every string
  whose trimmed form begins with \<open>@require\<close> or \<open>@must\<close> (so it has no leading \<open>//\<close>
  or \<open>/*\<close>), \<open>ParseDirective\<close> returns a directive, and it returns the same directive
  for the same text wrapped in a line comment, with or without a space after \<open>//\<close>.
\<close>

theorem ParseDirective_without_markers:
  assumes "HasPrefix (TrimSpace text) ''@require'' \<or> HasPrefix (TrimSpace text) ''@must''"
  shows "ParseDirective text \<noteq> None
         \<and> ParseDirective (''// '' @ text) = ParseDirective text
         \<and> ParseDirective (''//'' @ text) = ParseDirective text"
proof -
  from assms obtain r where r: "TrimSpace text = CHR ''@'' # r"
    by (auto simp: HasPrefix_def prefix_def)
  have s: "stripMarkers text = TrimSpace text" using r by (rule stripMarkers_unmarked)
  have "ParseDirective text \<noteq> None"
    using assms r s by (auto simp: ParseDirective_def HasPrefix_def Let_def)
  moreover have "ParseDirective (''// '' @ text) = ParseDirective text"
    using stripMarkers_line(2) [OF r] s by (simp add: ParseDirective_def)
  moreover have "ParseDirective (''//'' @ text) = ParseDirective text"
    using stripMarkers_line(1) [OF r] s by (simp add: ParseDirective_def)
  ultimately show ?thesis by blast
qed

theorem ParseDirective_without_markers_witness:
  "HasPrefix (TrimSpace ''@require x > 0'') ''@require''
   \<and> ParseDirective ''@require x > 0'' =
       Some \<lparr>Kind = Require, ND = False, Ret = False, Log = False, RetExprs = [],
             Vars = [], Expr = ''x > 0'', Message = []\<rparr>
   \<and> ParseDirective ''// @require x > 0'' = ParseDirective ''@require x > 0''"
proof -
  have h: "HasPrefix (TrimSpace ''@require x > 0'') ''@require''" by code_simp
  have v: "ParseDirective ''@require x > 0'' =
       Some \<lparr>Kind = Require, ND = False, Ret = False, Log = False, RetExprs = [],
             Vars = [], Expr = ''x > 0'', Message = []\<rparr>" by code_simp
  from ParseDirective_without_markers [of "''@require x > 0''"] h v show ?thesis by simp
qed


section \<open>The variable list of \<open>-nd\<close>\<close>

lemma appendVars_filter:
  "appendVars vars vs = vars @ filter (\<lambda>v. v \<noteq> []) (map TrimSpace vs)"
  by (induction vs arbitrary: vars) (simp_all add: Let_def)

lemma TrimSpace_Nil: "TrimSpace [] = []"
  by (simp add: TrimSpace_def trimLeft.simps [of "[]"] trimRight.simps [of "[]"]
      find_prefix_Nil [simplified] find_suffix_Nil [simplified])

lemma parseRequire_after_flags:
  "parseRequire r0 =
     (case requireFlags (newDirective Require) (TrimSpace r0) of
        (d, rest) \<Rightarrow>
          if rest = [] then d
          else if ND d then d\<lparr>Vars := appendVars (Vars d) (Split rest (CHR '',''))\<rparr>
          else
            (let idx = LastIndex rest '','' in
             if idx \<ge> 0 then
               (let candidate = TrimSpace (drop (nat (idx + 1)) rest) in
                if length candidate \<ge> 2 \<and> candidate ! 0 = CHR 0x22
                   \<and> candidate ! (length candidate - 1) = CHR 0x22
                then d\<lparr>Expr := TrimSpace (take (nat idx) rest),
                       Message := slice candidate 1 (length candidate - 1)\<rparr>
                else d\<lparr>Expr := rest\<rparr>)
             else d\<lparr>Expr := rest\<rparr>))"
  by (cases "TrimSpace r0 = []") (simp_all add: parseRequire_def requireFlags_Nil)

lemma requireFlags_Vars:
  "Vars (fst (requireFlags (newDirective Require) x)) = []"
  by (rule requireFlags_invariant) (simp_all add: newDirective_def)

lemma ParseDirective_Require:
  assumes "ParseDirective text = Some d" "Kind d = Require"
  shows "d = parseRequire (TrimPrefix (stripMarkers text) ''@require'')"
  using assms parseMust_modes [of "TrimPrefix (stripMarkers text) ''@must''"]
  by (auto simp: ParseDirective_def Let_def split: if_splits)

text \<open>
  Claim C8.  For every \<open>Require\<close> directive with \<open>ND\<close> set, \<open>Vars\<close> is the comma-split
  of the remaining text, each entry trimmed, the empty entries dropped, in the order of the
  text.  (When the remaining text is empty both sides are the empty list, so the claim's
  condition that it is non-empty is not needed.)
\<close>

theorem ParseDirective_nd_vars:
  assumes "ParseDirective text = Some d" and "Kind d = Require" and "ND d"
  shows "Vars d = filter (\<lambda>v. v \<noteq> []) (map TrimSpace (Split (remainingText text) (CHR '','')))"
proof -
  let ?r = "TrimPrefix (stripMarkers text) ''@require''"
  obtain d' rest where dr: "requireFlags (newDirective Require) (TrimSpace ?r) = (d', rest)"
    by (cases "requireFlags (newDirective Require) (TrimSpace ?r)")
  have d: "d = parseRequire ?r" using assms(1,2) by (rule ParseDirective_Require)
  have nd: "ND d'" using assms(3) d parseRequire_flags [of ?r] dr by simp
  have v: "Vars d' = []" using requireFlags_Vars [of "TrimSpace ?r"] dr by simp
  have rest: "remainingText text = rest" using dr by (simp add: remainingText_def)
  show ?thesis
  proof (cases "rest = []")
    case True
    then show ?thesis using d dr v rest
      by (simp add: parseRequire_after_flags TrimSpace_Nil)
  next
    case False
    then show ?thesis using d dr v nd rest
      by (simp add: parseRequire_after_flags appendVars_filter)
  qed
qed

theorem ParseDirective_nd_vars_witness:
  "ParseDirective ''// @require -nd   a ,  b , c '' =
     Some \<lparr>Kind = Require, ND = True, Ret = False, Log = False, RetExprs = [],
           Vars = [''a'', ''b'', ''c''], Expr = [], Message = []\<rparr>
   \<and> remainingText ''// @require -nd   a ,  b , c '' = ''a ,  b , c''
   \<and> filter (\<lambda>v. v \<noteq> []) (map TrimSpace (Split ''a ,  b , c'' (CHR '','')))
       = [''a'', ''b'', ''c'']"
proof -
  have a: "ParseDirective ''// @require -nd   a ,  b , c '' =
     Some \<lparr>Kind = Require, ND = True, Ret = False, Log = False, RetExprs = [],
           Vars = [''a'', ''b'', ''c''], Expr = [], Message = []\<rparr>"
    by code_simp
  have b: "remainingText ''// @require -nd   a ,  b , c '' = ''a ,  b , c''"
    by code_simp
  from ParseDirective_nd_vars [OF a] a b show ?thesis by simp
qed


section \<open>Expression and message\<close>













section \<open>Splitting at top-level commas\<close>

lemma spec_scan_Suc:
  "i < length s \<Longrightarrow> spec_scan (take (Suc i) s) = spec_scanStep (spec_scan (take i s)) (s ! i)"
  by (simp add: spec_scan_def take_Suc_conv_app_nth)

lemma spec_piecesFrom_end: "spec_piecesFrom s start (length s) = [drop start s]"
  by (simp add: spec_piecesFrom_def slice_def)

lemma spec_piecesFrom_step:
  assumes "i < length s"
  shows "spec_piecesFrom s start i =
     (if spec_topLevelComma s i then slice s start i # spec_piecesFrom s (Suc i) (Suc i)
      else spec_piecesFrom s start (Suc i))"
  using assms by (simp add: spec_piecesFrom_def upt_conv_Cons Let_def)

lemma splitLoop_step:
  assumes "i < length s"
  shows "splitLoop s i depth inString escaped start parts =
     (case spec_scanStep (depth, inString, escaped) (s ! i) of
        (depth', inString', escaped') \<Rightarrow>
          if s ! i = CHR '','' \<and> depth = 0 \<and> \<not> inString \<and> \<not> escaped then
            splitLoop s (Suc i) depth' inString' escaped' (Suc i)
              (if TrimSpace (slice s start i) \<noteq> [] then parts @ [TrimSpace (slice s start i)]
               else parts)
          else splitLoop s (Suc i) depth' inString' escaped' start parts)"
  using assms
  by (subst splitLoop.simps) (auto simp: Let_def)


lemma splitLoop_pieces:
  assumes "i \<le> length s" and "spec_scan (take i s) = (depth, inString, escaped)"
  shows "finishSplit s (splitLoop s i depth inString escaped start parts)
         = parts @ filter (\<lambda>p. p \<noteq> []) (map TrimSpace (spec_piecesFrom s start i))"
  using assms
proof (induction "length s - i" arbitrary: i depth inString escaped start parts)
  case 0
  then have "i = length s" by simp
  then show ?case
    by (simp add: splitLoop.simps [of s "length s"] finishSplit_def spec_piecesFrom_end)
next
  case (Suc n)
  then have i: "i < length s" by simp
  obtain depth' inString' escaped' where
    st: "spec_scanStep (depth, inString, escaped) (s ! i) = (depth', inString', escaped')"
    by (cases "spec_scanStep (depth, inString, escaped) (s ! i)")
  have sc: "spec_scan (take (Suc i) s) = (depth', inString', escaped')"
    using spec_scan_Suc [OF i] Suc.prems(2) st by simp
  have n: "n = length s - Suc i" using Suc.hyps(2) by simp
  have le: "Suc i \<le> length s" using i by simp
  have tl: "spec_topLevelComma s i
            \<longleftrightarrow> s ! i = CHR '','' \<and> depth = 0 \<and> \<not> inString \<and> \<not> escaped"
    using i Suc.prems(2) by (simp add: spec_topLevelComma_def)
  show ?case
  proof (cases "spec_topLevelComma s i")
    case True
    then show ?thesis
      using tl st Suc.hyps(1) [OF n le sc]
      by (simp add: splitLoop_step [OF i] spec_piecesFrom_step [OF i])
  next
    case False
    then have "splitLoop s i depth inString escaped start parts
               = splitLoop s (Suc i) depth' inString' escaped' start parts"
      using tl st by (auto simp: splitLoop_step [OF i])
    then show ?thesis
      using False Suc.hyps(1) [OF n le sc] by (simp add: spec_piecesFrom_step [OF i])
  qed
qed

lemma splitTopLevelCommas_pieces:
  "splitTopLevelCommas s = filter (\<lambda>p. p \<noteq> []) (map TrimSpace (spec_pieces s))"
proof -
  have "splitTopLevelCommas s = finishSplit s (splitLoop s 0 0 False False 0 [])"
    by (simp add: splitTopLevelCommas_def finishSplit_def)
  also have "\<dots> = [] @ filter (\<lambda>p. p \<noteq> []) (map TrimSpace (spec_piecesFrom s 0 0))"
    by (rule splitLoop_pieces) (simp_all add: spec_scan_def)
  finally show ?thesis by (simp add: spec_pieces_def)
qed

lemma closeLoop_cases:
  "i < length s \<Longrightarrow>
   closeLoop s i depth inString escaped = int i \<and> s ! i = CHR '')''
   \<or> (\<exists>depth' inString' escaped'.
         closeLoop s i depth inString escaped = closeLoop s (Suc i) depth' inString' escaped')"
  unfolding closeLoop.simps [of s i depth inString escaped] Let_def
  by (cases escaped; cases inString; cases "s ! i = CHR '')''"; cases "depth - 1 = 0") auto

lemma closeLoop_index:
  assumes "0 \<le> closeLoop s i depth inString escaped"
  shows "i \<le> nat (closeLoop s i depth inString escaped)
         \<and> nat (closeLoop s i depth inString escaped) < length s
         \<and> s ! nat (closeLoop s i depth inString escaped) = CHR '')''"
  using assms
proof (induction "length s - i" arbitrary: i depth inString escaped)
  case 0
  then have "closeLoop s i depth inString escaped = -1"
    by (simp add: closeLoop.simps [of s i])
  with 0 show ?case by simp
next
  case (Suc n)
  then have i: "i < length s" by simp
  from closeLoop_cases [OF i, of depth inString escaped] show ?case
  proof
    assume "closeLoop s i depth inString escaped = int i \<and> s ! i = CHR '')''"
    with i show ?thesis by simp
  next
    assume "\<exists>depth' inString' escaped'.
         closeLoop s i depth inString escaped = closeLoop s (Suc i) depth' inString' escaped'"
    then obtain d' q' e' where
      eq: "closeLoop s i depth inString escaped = closeLoop s (Suc i) d' q' e'" by blast
    have "n = length s - Suc i" using Suc.hyps(2) by simp
    from Suc.hyps(1) [OF this, of d' q' e'] Suc.prems eq show ?thesis by simp
  qed
qed

text \<open>
  Claim C7.  \<open>splitTopLevelCommas\<close> cuts its argument exactly at the commas that are read
  at bracket depth zero outside double-quoted literals (parentheses, square brackets and
  braces change the depth, a backslash inside a literal skips the next byte), trims each
  piece and drops the empty ones.  When \<open>parseRetExprs\<close> succeeds, its input is an opening
  parenthesis, an argument text, a closing parenthesis and the remaining text, and the
  expressions are this split of the argument text.
\<close>

theorem splitTopLevelCommas_top_level:
  \<open>splitTopLevelCommas s = filter (\<lambda>p. p \<noteq> []) (map TrimSpace (spec_pieces s))
   \<and> (snd (snd (parseRetExprs s)) \<longrightarrow>
        (\<exists>inner. s = CHR ''('' # inner @ CHR '')'' # fst (snd (parseRetExprs s))
           \<and> fst (parseRetExprs s)
               = filter (\<lambda>p. p \<noteq> []) (map TrimSpace (spec_pieces inner))))\<close>
proof (rule conjI)
  show "splitTopLevelCommas s = filter (\<lambda>p. p \<noteq> []) (map TrimSpace (spec_pieces s))"
    by (rule splitTopLevelCommas_pieces)
  show "snd (snd (parseRetExprs s)) \<longrightarrow>
        (\<exists>inner. s = CHR ''('' # inner @ CHR '')'' # fst (snd (parseRetExprs s))
           \<and> fst (parseRetExprs s)
               = filter (\<lambda>p. p \<noteq> []) (map TrimSpace (spec_pieces inner)))"
  proof
    assume ok: "snd (snd (parseRetExprs s))"
    let ?k = "closeLoop s 0 0 False False"
    from ok have s0: "s \<noteq> []" "s ! 0 = CHR ''(''" and k0: "0 \<le> ?k"
      by (auto simp: parseRetExprs_def Let_def split: if_splits)
    from closeLoop_index [OF k0] have k: "nat ?k < length s" "s ! nat ?k = CHR '')''"
      by simp_all
    with s0 have k1: "1 \<le> nat ?k" by (cases "nat ?k") auto
    have res: "fst (parseRetExprs s) = splitTopLevelCommas (slice s 1 (nat ?k))"
      "fst (snd (parseRetExprs s)) = drop (nat ?k + 1) s"
      using ok by (auto simp: parseRetExprs_def Let_def split: if_splits)
    have "s = take (nat ?k) s @ s ! nat ?k # drop (Suc (nat ?k)) s"
      using k(1) by (rule id_take_nth_drop)
    moreover have "take (nat ?k) s = CHR ''('' # slice s 1 (nat ?k)"
      using s0 k1 by (cases s) (auto simp: slice_def take_Suc_Cons [symmetric] simp del: take_Suc_Cons)
    ultimately have "s = CHR ''('' # slice s 1 (nat ?k) @ CHR '')'' # fst (snd (parseRetExprs s))"
      using k(2) res(2) by simp
    moreover have "fst (parseRetExprs s)
        = filter (\<lambda>p. p \<noteq> []) (map TrimSpace (spec_pieces (slice s 1 (nat ?k))))"
      using res(1) by (simp add: splitTopLevelCommas_pieces)
    ultimately show "\<exists>inner. s = CHR ''('' # inner @ CHR '')'' # fst (snd (parseRetExprs s))
           \<and> fst (parseRetExprs s)
               = filter (\<lambda>p. p \<noteq> []) (map TrimSpace (spec_pieces inner))"
      by blast
  qed
qed

theorem splitTopLevelCommas_top_level_witness:
  \<open>snd (snd (parseRetExprs ''(nil, fmt.Errorf("bad id: %s", id))''))
   \<and> parseRetExprs ''(nil, fmt.Errorf("bad id: %s", id))''
       = ([''nil'', ''fmt.Errorf("bad id: %s", id)''], [], True)
   \<and> splitTopLevelCommas ''nil, fmt.Errorf("bad id: %s", id)''
       = [''nil'', ''fmt.Errorf("bad id: %s", id)'']
   \<and> spec_pieces ''nil, fmt.Errorf("bad id: %s", id)''
       = [''nil'', '' fmt.Errorf("bad id: %s", id)'']\<close>
proof -
  let ?s = \<open>''(nil, fmt.Errorf("bad id: %s", id))''\<close>
  let ?a = \<open>''nil, fmt.Errorf("bad id: %s", id)''\<close>
  have c: \<open>parseRetExprs ?s = ([''nil'', ''fmt.Errorf("bad id: %s", id)''], [], True)\<close>
    by code_simp
  then have ok: "snd (snd (parseRetExprs ?s))" by simp
  have p: \<open>spec_pieces ?a = [''nil'', '' fmt.Errorf("bad id: %s", id)'']\<close>
    by code_simp
  have t: \<open>map TrimSpace [''nil'', '' fmt.Errorf("bad id: %s", id)'']
            = [''nil'', ''fmt.Errorf("bad id: %s", id)'']\<close>
    by code_simp
  from splitTopLevelCommas_top_level [of ?a] p t
  have \<open>splitTopLevelCommas ?a = [''nil'', ''fmt.Errorf("bad id: %s", id)'']\<close> by simp
  moreover from splitTopLevelCommas_top_level [of ?s] ok
  have "\<exists>inner. ?s = CHR ''('' # inner @ CHR '')'' # fst (snd (parseRetExprs ?s))" by blast
  ultimately show ?thesis using c ok p by simp
qed


section \<open>The order of the flags\<close>





lemma prefix_trimRight: "prefix (trimRight s) s"
proof (induction s rule: trimRight.induct)
  case (1 s)
  show ?case
  proof (cases "find (\<lambda>p. suffix p s) spaceSeqs")
    case None
    then show ?thesis by (simp add: trimRight.simps [of s])
  next
    case (Some p)
    with 1 have "prefix (trimRight (take (length s - length p) s)) (take (length s - length p) s)"
      by simp
    then have "prefix (trimRight (take (length s - length p) s)) s"
      using take_is_prefix prefix_order.trans by blast
    with Some show ?thesis by (simp add: trimRight.simps [of s])
  qed
qed
































lemma rtrimmed_Nil: "rtrimmed []"
  by (simp add: rtrimmed_def spaceSeqs_def)













section \<open>Determinism\<close>

lemma find_unique:
  assumes "set xs = set ys"
    and "\<And>x y. x \<in> set xs \<Longrightarrow> y \<in> set xs \<Longrightarrow> P x \<Longrightarrow> P y \<Longrightarrow> x = y"
  shows "find P xs = find P ys"
proof (cases "find P xs")
  case None
  then have "\<forall>x\<in>set ys. \<not> P x" using assms(1) by (simp add: find_None_iff)
  then have "find P ys = None" by (simp add: find_None_iff)
  with None show ?thesis by simp
next
  case (Some x)
  then have x: "x \<in> set xs" "P x" by (auto simp: find_Some_iff)
  then obtain y where y: "find P ys = Some y"
    using assms(1) by (cases "find P ys") (auto simp: find_None_iff)
  then have "y \<in> set ys" "P y" by (auto simp: find_Some_iff)
  with x assms have "x = y" by blast
  with Some y show ?thesis by simp
qed

lemma keyword_unique:
  assumes "x \<in> set keywordTable" "y \<in> set keywordTable"
    and "HasPrefix s (fst x)" "HasPrefix s (fst y)"
  shows "x = y"
  using assms by (auto simp: keywordTable_def HasPrefix_def prefix_def)

text \<open>
  Claim C9.  \<open>ParseDirective\<close> is deterministic.  The parser of \<open>contract.go\<close> reads
  nothing but its argument, so identical input gives identical results.  The parser of
  \<open>directive.go\<close> ranges over the map \<open>keywords\<close>, but no keyword is a prefix of another:
  at most one keyword matches, and the result is the same for every order in which the
  map is visited.
\<close>

theorem ParseDirective_deterministic:
  assumes "set order1 = set keywordTable" and "set order2 = set keywordTable"
    and "comment' = comment"
  shows "ParseDirective comment' = ParseDirective comment
         \<and> ParseDirective_dgo order1 comment' = ParseDirective_dgo order2 comment"
proof -
  have eq: "find (\<lambda>(kw, k). HasPrefix s kw) order1 = find (\<lambda>(kw, k). HasPrefix s kw) order2"
    for s
  proof (rule find_unique)
    show "set order1 = set order2" using assms by simp
  next
    fix x y
    assume "x \<in> set order1" "y \<in> set order1"
      "case x of (kw, k) \<Rightarrow> HasPrefix s kw" "case y of (kw, k) \<Rightarrow> HasPrefix s kw"
    then show "x = y"
      using assms(1) keyword_unique [of x y s] by (auto simp: case_prod_beta)
  qed
  have "ParseDirective_dgo order1 comment = ParseDirective_dgo order2 comment"
    unfolding ParseDirective_dgo_def by (simp add: eq split: outcome.split)
  with assms(3) show ?thesis by simp
qed

theorem ParseDirective_deterministic_witness:
  \<open>set (rev keywordTable) = set keywordTable
   \<and> ParseDirective_dgo (rev keywordTable) ''// @must panic("a,b", c)''
       = ParseDirective_dgo keywordTable ''// @must panic("a,b", c)''
   \<and> ParseDirective_dgo keywordTable ''// @must panic("a,b", c)''
       = Return (Some \<lparr>Kind_dgo = KindMust, Action = ActionPanic,
                       ActionArgs = [''"a,b"'', ''c''], Expr_dgo = []\<rparr>)\<close>
proof -
  have a: "set (rev keywordTable) = set keywordTable" by simp
  have v: \<open>ParseDirective_dgo keywordTable ''// @must panic("a,b", c)''
       = Return (Some \<lparr>Kind_dgo = KindMust, Action = ActionPanic,
                       ActionArgs = [''"a,b"'', ''c''], Expr_dgo = []\<rparr>)\<close>
    by code_simp
  from ParseDirective_deterministic [OF a refl refl] a v show ?thesis by simp
qed

text \<open>The parser of \<open>directive.go\<close> rejects a \<open>@require\<close> with no expression.\<close>

lemma ParseDirective_dgo_empty_require:
  "ParseDirective_dgo keywordTable ''// @require'' = Return None
   \<and> ParseDirective_dgo keywordTable ''/*/'' = Panic"
  by code_simp

end
